theory Spec2Isabelle
  imports Complex_Main "HOL-Library.Word" "HOL-Library.Signed_Division" "HOL-Library.Multiset"
begin

unbundle bit_operations_syntax

section \<open>The concurrent hash table of hashtable.go, one call at a time\<close>

text \<open>
  The model follows \<^verbatim>\<open>src/hashtable/hashtable.go\<close>. Calls run one after the other, each
  to completion. The mutexes carry no state between calls in such a run; the order in
  which a call takes and releases them is kept in a log (field \<open>events\<close>), appended to at
  every \<^verbatim>\<open>Lock\<close>, \<^verbatim>\<open>Unlock\<close>, \<^verbatim>\<open>RLock\<close> and \<^verbatim>\<open>RUnlock\<close> of the source.

  Idealisations, all of them on sizes that no memory holds: Go's \<^verbatim>\<open>int\<close> is taken as
  64 bits wide (so the conversion of a \<^verbatim>\<open>uint32\<close> keeps its value) and does not
  overflow on the counts that occur; \<^verbatim>\<open>make\<close> always finds the memory it asks for.
\<close>

subsection \<open>Data\<close>

datatype error = DivideByZero | LenOutOfRange | IndexOutOfRange

text \<open>
  A bucket's mutex is named by the length of the bucket array it belongs to and its
  index there: arrays are only ever replaced by longer ones.
\<close>

datatype mutex = TableMu | BucketMu nat nat

datatype sync_event = Lock mutex | Unlock mutex | RLock mutex | RUnlock mutex

record ('k, 'v) entry =
  key :: 'k
  val :: 'v

record ('k, 'v) bucket =
  entries :: "('k, 'v) entry list"

record ('k, 'v) HashTable =
  buckets :: "('k, 'v) bucket list"
  size_ht :: int
  bucketSize :: int
  resizing :: bool
  events :: "sync_event list"

definition emit :: "sync_event list \<Rightarrow> ('k, 'v) HashTable \<Rightarrow> ('k, 'v) HashTable" where
  "emit es ht = ht\<lparr>events := events ht @ es\<rparr>"

subsection \<open>New\<close>

definition New :: "int \<Rightarrow> ('k, 'v) HashTable" where
  "New initialSize =
     (let initialSize = (if initialSize < 1 then 16 else initialSize)
      in \<lparr>buckets = replicate (nat initialSize) \<lparr>entries = []\<rparr>,
          size_ht = 0,
          bucketSize = initialSize,
          resizing = False,
          events = []\<rparr>)"

subsection \<open>hash\<close>

text \<open>
  \<^verbatim>\<open>hash/fnv\<close>'s 32-bit FNV-1a: from the offset basis, each byte is xor-ed in and the
  sum multiplied by the prime, modulo \<open>2 ^ 32\<close>.
\<close>

definition offset32 :: "32 word" where
  "offset32 = 2166136261"

definition prime32 :: "32 word" where
  "prime32 = 16777619"

fun fnv_Write :: "32 word \<Rightarrow> string \<Rightarrow> 32 word" where
  "fnv_Write h [] = h"
| "fnv_Write h (c # cs) = fnv_Write ((h XOR of_char c) * prime32) cs"

definition Sum32 :: "string \<Rightarrow> 32 word" where
  "Sum32 keyStr = fnv_Write offset32 keyStr"

text \<open>
  \<^verbatim>\<open>int(h.Sum32()) % n\<close>: Go's \<^verbatim>\<open>%\<close> truncates towards zero (\<open>smod\<close>) and panics on a
  zero divisor.
\<close>

definition fnv_index :: "string \<Rightarrow> int \<Rightarrow> error + int" where
  "fnv_index keyStr n =
     (if n = 0 then Inl DivideByZero else Inr (uint (Sum32 keyStr) smod n))"

text \<open>
  The key type \<open>'k\<close> is generic; \<open>fmtv\<close> is what \<^verbatim>\<open>fmt.Sprintf("%v", key)\<close> gives at that
  type. \<open>hash\<close> reads \<open>bucketSize\<close> between \<^verbatim>\<open>RLock\<close> and \<^verbatim>\<open>RUnlock\<close> of the table's mutex.
\<close>

definition hash ::
  "('k \<Rightarrow> string) \<Rightarrow> ('k, 'v) HashTable \<Rightarrow> 'k \<Rightarrow> error + (int \<times> ('k, 'v) HashTable)" where
  "hash fmtv ht k =
     (let keyStr = fmtv k;
          ht1 = emit [RLock TableMu] ht;
          n = bucketSize ht1;
          ht2 = emit [RUnlock TableMu] ht1
      in case fnv_index keyStr n of
           Inl e \<Rightarrow> Inl e
         | Inr index \<Rightarrow> Inr (index, ht2))"

subsection \<open>tryResize\<close>

text \<open>
  \<^verbatim>\<open>float64(n)/float64(b) > 0.75\<close>. Both conversions are exact below \<open>2 ^ 53\<close>, the
  quotient is rounded to the nearest double and \<open>0.75\<close> is a double, so for a positive
  \<open>b\<close> below \<open>2 ^ 52\<close> the test is the comparison of fractions \<open>3 * b < 4 * n\<close>. A
  negative divisor turns the comparison around; a zero divisor gives \<open>+Inf\<close> for a
  positive \<open>n\<close>, and \<open>NaN\<close> or \<open>-Inf\<close>, which exceed nothing, otherwise.
\<close>

definition loadExceeds :: "int \<Rightarrow> int \<Rightarrow> bool" where
  "loadExceeds n b =
     (if 0 < b then 3 * b < 4 * n else if b < 0 then 4 * n < 3 * b else 0 < n)"

text \<open>The inner loop of the migration: every entry copied from one old bucket.\<close>

fun rehash_entries ::
  "('k \<Rightarrow> string) \<Rightarrow> int \<Rightarrow> ('k, 'v) entry list \<Rightarrow>
   ('k, 'v) bucket list \<times> ('k, 'v) HashTable \<Rightarrow>
   error + (('k, 'v) bucket list \<times> ('k, 'v) HashTable)" where
  "rehash_entries fmtv newSize [] acc = Inr acc"
| "rehash_entries fmtv newSize (e # es) (newBuckets, ht) =
     (case fnv_index (fmtv (key e)) newSize of
        Inl err \<Rightarrow> Inl err
      | Inr newIndex \<Rightarrow>
          if int (length newBuckets) \<le> newIndex \<or> newIndex < 0 then Inl IndexOutOfRange
          else
            let j = nat newIndex;
                newBucket = newBuckets ! j;
                m = BucketMu (length newBuckets) j;
                ht1 = emit [Lock m] ht;
                newBucket' = newBucket\<lparr>entries := entries newBucket @ [e]\<rparr>;
                ht2 = emit [Unlock m] ht1
            in rehash_entries fmtv newSize es (newBuckets[j := newBucket'], ht2))"

text \<open>
  The outer loop, over the old buckets from index \<open>i\<close> on: each is locked while its
  entries are copied out.
\<close>

fun rehash_buckets ::
  "('k \<Rightarrow> string) \<Rightarrow> int \<Rightarrow> nat \<Rightarrow> nat \<Rightarrow> ('k, 'v) bucket list \<Rightarrow>
   ('k, 'v) bucket list \<times> ('k, 'v) HashTable \<Rightarrow>
   error + (('k, 'v) bucket list \<times> ('k, 'v) HashTable)" where
  "rehash_buckets fmtv newSize oldLen i [] acc = Inr acc"
| "rehash_buckets fmtv newSize oldLen i (oldBucket # rest) (newBuckets, ht) =
     (let m = BucketMu oldLen i;
          ht1 = emit [Lock m] ht;
          es = entries oldBucket;
          ht2 = emit [Unlock m] ht1
      in case rehash_entries fmtv newSize es (newBuckets, ht2) of
           Inl err \<Rightarrow> Inl err
         | Inr acc' \<Rightarrow> rehash_buckets fmtv newSize oldLen (Suc i) rest acc')"

text \<open>The deferred function of \<open>tryResize\<close>.\<close>

definition tryResize_deferred :: "('k, 'v) HashTable \<Rightarrow> ('k, 'v) HashTable" where
  "tryResize_deferred ht = (emit [Unlock TableMu] ht)\<lparr>resizing := False\<rparr>"

definition tryResize ::
  "('k \<Rightarrow> string) \<Rightarrow> ('k, 'v) HashTable \<Rightarrow> error + ('k, 'v) HashTable" where
  "tryResize fmtv ht =
     (if resizing ht then Inr ht
      else
        let ht1 = emit [Lock TableMu] (ht\<lparr>resizing := True\<rparr>);
            currentSize = size_ht ht1
        in if \<not> loadExceeds currentSize (bucketSize ht1) then Inr (tryResize_deferred ht1)
           else
             let newSize = bucketSize ht1 * 2
             in if newSize < 0 then Inl LenOutOfRange
                else
                  let newBuckets = replicate (nat newSize) \<lparr>entries = []\<rparr>
                  in case rehash_buckets fmtv newSize (length (buckets ht1)) 0 (buckets ht1)
                            (newBuckets, ht1) of
                       Inl err \<Rightarrow> Inl err
                     | Inr (newBuckets', ht2) \<Rightarrow>
                         Inr (tryResize_deferred
                                (ht2\<lparr>buckets := newBuckets', bucketSize := newSize\<rparr>)))"

subsection \<open>Put\<close>

text \<open>The scan of a bucket for the key; the flag is the source's \<open>updated\<close>.\<close>

fun Put_scan :: "('k, 'v) entry list \<Rightarrow> 'k \<Rightarrow> 'v \<Rightarrow> ('k, 'v) entry list \<times> bool" where
  "Put_scan [] k v = ([], False)"
| "Put_scan (e # es) k v =
     (if key e = k then (e\<lparr>val := v\<rparr> # es, True)
      else (let (es', updated) = Put_scan es k v in (e # es', updated)))"

text \<open>One pass of the loop of \<open>Put\<close> that got past the index check.\<close>

definition Put_iter ::
  "('k \<Rightarrow> string) \<Rightarrow> ('k, 'v) HashTable \<Rightarrow> nat \<Rightarrow> 'k \<Rightarrow> 'v \<Rightarrow> error + ('k, 'v) HashTable" where
  "Put_iter fmtv ht i k v =
     (let b = buckets ht ! i;
          m = BucketMu (length (buckets ht)) i;
          ht1 = emit [Lock m] ht;
          (es, updated) = Put_scan (entries b) k v
      in if \<not> updated then
           let b' = b\<lparr>entries := entries b @ [\<lparr>key = k, val = v\<rparr>]\<rparr>;
               ht2 = ht1\<lparr>buckets := (buckets ht1)[i := b']\<rparr>;
               ht3 = emit [Unlock m] ht2;
               newSize = size_ht ht3 + 1;
               ht4 = ht3\<lparr>size_ht := newSize\<rparr>
           in if loadExceeds newSize (bucketSize ht4) then tryResize fmtv ht4 else Inr ht4
         else
           let b' = b\<lparr>entries := es\<rparr>;
               ht2 = ht1\<lparr>buckets := (buckets ht1)[i := b']\<rparr>
           in Inr (emit [Unlock m] ht2))"

text \<open>
  The loop of \<open>Put\<close>: an index at or beyond the length of the bucket array starts the
  pass again. \<open>None\<close> is a loop that never ends.
\<close>

partial_function (option) Put ::
  "('k \<Rightarrow> string) \<Rightarrow> ('k, 'v) HashTable \<Rightarrow> 'k \<Rightarrow> 'v \<Rightarrow> (error + ('k, 'v) HashTable) option" where
  "Put fmtv ht k v =
     (case hash fmtv ht k of
        Inl err \<Rightarrow> Some (Inl err)
      | Inr (index, ht1) \<Rightarrow>
          if int (length (buckets ht1)) \<le> index then Put fmtv ht1 k v
          else if index < 0 then Some (Inl IndexOutOfRange)
          else Some (Put_iter fmtv ht1 (nat index) k v))"

declare Put.simps [code]

subsection \<open>Get\<close>

fun Get_scan :: "('k, 'v) entry list \<Rightarrow> 'k \<Rightarrow> 'v \<times> bool \<Rightarrow> 'v \<times> bool" where
  "Get_scan [] k r = r"
| "Get_scan (e # es) k r = (if key e = k then (val e, True) else Get_scan es k r)"

text \<open>\<open>zeroV\<close> is the zero value of the value type, which \<^verbatim>\<open>var result V\<close> starts from.\<close>

definition Get_iter ::
  "'v \<Rightarrow> ('k, 'v) HashTable \<Rightarrow> nat \<Rightarrow> 'k \<Rightarrow> ('v \<times> bool) \<times> ('k, 'v) HashTable" where
  "Get_iter zeroV ht i k =
     (let b = buckets ht ! i;
          m = BucketMu (length (buckets ht)) i;
          ht1 = emit [RLock m] ht;
          r = Get_scan (entries b) k (zeroV, False);
          ht2 = emit [RUnlock m] ht1
      in (r, ht2))"

partial_function (option) Get ::
  "('k \<Rightarrow> string) \<Rightarrow> 'v \<Rightarrow> ('k, 'v) HashTable \<Rightarrow> 'k \<Rightarrow>
   (error + (('v \<times> bool) \<times> ('k, 'v) HashTable)) option" where
  "Get fmtv zeroV ht k =
     (case hash fmtv ht k of
        Inl err \<Rightarrow> Some (Inl err)
      | Inr (index, ht1) \<Rightarrow>
          if int (length (buckets ht1)) \<le> index then Get fmtv zeroV ht1 k
          else if index < 0 then Some (Inl IndexOutOfRange)
          else Some (Inr (Get_iter zeroV ht1 (nat index) k)))"

declare Get.simps [code]

subsection \<open>Delete\<close>

fun Delete_scan :: "('k, 'v) entry list \<Rightarrow> 'k \<Rightarrow> ('k, 'v) entry list \<times> bool" where
  "Delete_scan [] k = ([], False)"
| "Delete_scan (e # es) k =
     (if key e = k then (es, True)
      else (let (es', deleted) = Delete_scan es k in (e # es', deleted)))"

definition Delete_iter ::
  "('k, 'v) HashTable \<Rightarrow> nat \<Rightarrow> 'k \<Rightarrow> bool \<times> ('k, 'v) HashTable" where
  "Delete_iter ht i k =
     (let b = buckets ht ! i;
          m = BucketMu (length (buckets ht)) i;
          ht1 = emit [Lock m] ht;
          (es, deleted) = Delete_scan (entries b) k;
          ht2 = (if deleted
                 then ht1\<lparr>buckets := (buckets ht1)[i := b\<lparr>entries := es\<rparr>],
                          size_ht := size_ht ht1 - 1\<rparr>
                 else ht1)
      in (deleted, emit [Unlock m] ht2))"

partial_function (option) Delete ::
  "('k \<Rightarrow> string) \<Rightarrow> ('k, 'v) HashTable \<Rightarrow> 'k \<Rightarrow>
   (error + (bool \<times> ('k, 'v) HashTable)) option" where
  "Delete fmtv ht k =
     (case hash fmtv ht k of
        Inl err \<Rightarrow> Some (Inl err)
      | Inr (index, ht1) \<Rightarrow>
          if int (length (buckets ht1)) \<le> index then Delete fmtv ht1 k
          else if index < 0 then Some (Inl IndexOutOfRange)
          else Some (Inr (Delete_iter ht1 (nat index) k)))"

declare Delete.simps [code]

subsection \<open>Size\<close>

definition Size :: "('k, 'v) HashTable \<Rightarrow> int" where
  "Size ht = size_ht ht"

subsection \<open>What a table holds\<close>

text \<open>
  The entries of all buckets in array order, the keys present, and the value stored
  under a key (the first entry with that key, in array order).
\<close>

definition all_entries :: "('k, 'v) bucket list \<Rightarrow> ('k, 'v) entry list" where
  "all_entries bs = concat (map entries bs)"

definition kv :: "('k, 'v) entry \<Rightarrow> 'k \<times> 'v" where
  "kv e = (key e, val e)"

definition present_keys :: "('k, 'v) HashTable \<Rightarrow> 'k set" where
  "present_keys ht = key ` set (all_entries (buckets ht))"

definition stored :: "('k, 'v) HashTable \<Rightarrow> 'k \<Rightarrow> 'v option" where
  "stored ht = map_of (map kv (all_entries (buckets ht)))"

text \<open>
  The invariant of the table between calls: the bucket count is positive and is the
  length of the bucket array, no resize is under way, the counter is the number of
  entries, no key occurs twice, and every entry lies in the bucket its key hashes to.
\<close>

definition placed :: "('k \<Rightarrow> string) \<Rightarrow> ('k, 'v) bucket list \<Rightarrow> bool" where
  "placed fmtv bs =
     list_all (\<lambda>i. list_all (\<lambda>e. fnv_index (fmtv (key e)) (int (length bs)) = Inr (int i))
                              (entries (bs ! i)))
              [0..<length bs]"

definition table_inv :: "('k \<Rightarrow> string) \<Rightarrow> ('k, 'v) HashTable \<Rightarrow> bool" where
  "table_inv fmtv ht =
     (0 < bucketSize ht \<and> int (length (buckets ht)) = bucketSize ht \<and> \<not> resizing ht \<and>
      size_ht ht = int (length (all_entries (buckets ht))) \<and>
      distinct (map key (all_entries (buckets ht))) \<and>
      placed fmtv (buckets ht))"

subsection \<open>Drivers and reference notions\<close>

text \<open>The index that \<open>hash\<close> gives a key in a table of \<open>n\<close> buckets, for \<open>n\<close> positive.\<close>

definition slot :: "('k \<Rightarrow> string) \<Rightarrow> nat \<Rightarrow> 'k \<Rightarrow> nat" where
  "slot fmtv n k = nat (uint (Sum32 (fmtv k)) mod int n)"

text \<open>\<open>tryResize\<close> called \<open>n\<close> times in a row.\<close>

fun resize_times ::
  "('k \<Rightarrow> string) \<Rightarrow> nat \<Rightarrow> ('k, 'v) HashTable \<Rightarrow> error + ('k, 'v) HashTable" where
  "resize_times fmtv 0 ht = Inr ht"
| "resize_times fmtv (Suc n) ht =
     (case tryResize fmtv ht of Inl err \<Rightarrow> Inl err | Inr ht' \<Rightarrow> resize_times fmtv n ht')"

text \<open>
  A caller that makes calls one after the other. A panic ends the run; a call that
  does not return leaves the run without a result.
\<close>

datatype ('k, 'v) call = PutCall 'k 'v | GetCall 'k | DeleteCall 'k

fun run ::
  "('k \<Rightarrow> string) \<Rightarrow> 'v \<Rightarrow> ('k, 'v) HashTable \<Rightarrow> ('k, 'v) call list \<Rightarrow>
   (error + ('k, 'v) HashTable) option" where
  "run fmtv zeroV ht [] = Some (Inr ht)"
| "run fmtv zeroV ht (PutCall k v # cs) =
     (case Put fmtv ht k v of
        None \<Rightarrow> None
      | Some (Inl err) \<Rightarrow> Some (Inl err)
      | Some (Inr ht') \<Rightarrow> run fmtv zeroV ht' cs)"
| "run fmtv zeroV ht (GetCall k # cs) =
     (case Get fmtv zeroV ht k of
        None \<Rightarrow> None
      | Some (Inl err) \<Rightarrow> Some (Inl err)
      | Some (Inr (r, ht')) \<Rightarrow> run fmtv zeroV ht' cs)"
| "run fmtv zeroV ht (DeleteCall k # cs) =
     (case Delete fmtv ht k of
        None \<Rightarrow> None
      | Some (Inl err) \<Rightarrow> Some (Inl err)
      | Some (Inr (deleted, ht')) \<Rightarrow> run fmtv zeroV ht' cs)"

text \<open>
  The map a sequence of calls describes, from the map \<open>m\<close> before it: a \<open>Put\<close> binds
  the key, a \<open>Delete\<close> unbinds it.
\<close>

fun map_after :: "('k \<rightharpoonup> 'v) \<Rightarrow> ('k, 'v) call list \<Rightarrow> ('k \<rightharpoonup> 'v)" where
  "map_after m [] = m"
| "map_after m (PutCall k v # cs) = map_after (m(k \<mapsto> v)) cs"
| "map_after m (GetCall k # cs) = map_after m cs"
| "map_after m (DeleteCall k # cs) = map_after (m(k := None)) cs"

text \<open>
  The counts the property of \<open>Size\<close> is worded with, for one key \<open>k\<close> and the set \<open>S\<close>
  of keys present before the calls: the inserts are the calls of \<open>Put\<close> on \<open>k\<close> while
  it is absent, the successful deletes the calls of \<open>Delete\<close> on \<open>k\<close> while it is present.
\<close>

fun inserts :: "'k \<Rightarrow> 'k set \<Rightarrow> ('k, 'v) call list \<Rightarrow> nat" where
  "inserts k S [] = 0"
| "inserts k S (PutCall k' v # cs) =
     (if k' = k \<and> k \<notin> S then 1 else 0) + inserts k (insert k' S) cs"
| "inserts k S (GetCall k' # cs) = inserts k S cs"
| "inserts k S (DeleteCall k' # cs) = inserts k (S - {k'}) cs"

fun deletes :: "'k \<Rightarrow> 'k set \<Rightarrow> ('k, 'v) call list \<Rightarrow> nat" where
  "deletes k S [] = 0"
| "deletes k S (PutCall k' v # cs) = deletes k (insert k' S) cs"
| "deletes k S (GetCall k' # cs) = deletes k S cs"
| "deletes k S (DeleteCall k' # cs) =
     (if k' = k \<and> k \<in> S then 1 else 0) + deletes k (S - {k'}) cs"

text \<open>
  The lock discipline of the specification, read on a log of lock events: every event
  on a bucket's mutex lies between an \<^verbatim>\<open>RLock\<close> of the table's mutex and the \<^verbatim>\<open>RUnlock\<close>
  that follows it. The flag says whether the shared access is held.
\<close>

fun spec_lock_discipline :: "bool \<Rightarrow> sync_event list \<Rightarrow> bool" where
  "spec_lock_discipline held [] = True"
| "spec_lock_discipline held (RLock TableMu # es) = spec_lock_discipline True es"
| "spec_lock_discipline held (RUnlock TableMu # es) = spec_lock_discipline False es"
| "spec_lock_discipline held (Lock TableMu # es) = spec_lock_discipline held es"
| "spec_lock_discipline held (Unlock TableMu # es) = spec_lock_discipline held es"
| "spec_lock_discipline held (e # es) = (held \<and> spec_lock_discipline held es)"

text \<open>
  \<^verbatim>\<open>fmt.Sprintf("%v", key)\<close> at the key types of the examples: an \<^verbatim>\<open>int\<close> prints in
  base ten, a \<^verbatim>\<open>string\<close> prints as it is, and a key of type \<^verbatim>\<open>any\<close> that holds one or
  the other prints as what it holds.
\<close>

fun fmt_nat :: "nat \<Rightarrow> string" where
  "fmt_nat n =
     (if n < 10 then [char_of (48 + n)] else fmt_nat (n div 10) @ [char_of (48 + n mod 10)])"

declare fmt_nat.simps [simp del]

definition fmt_int :: "int \<Rightarrow> string" where
  "fmt_int i = (if i < 0 then CHR ''-'' # fmt_nat (nat (- i)) else fmt_nat (nat i))"

definition fmt_any :: "int + string \<Rightarrow> string" where
  "fmt_any x = (case x of Inl i \<Rightarrow> fmt_int i | Inr s \<Rightarrow> s)"

text \<open>
  Tables for the examples: a table of one bucket as \<open>Put\<close> leaves it for \<open>tryResize\<close>
  after the first insert, and a table of four buckets, one of them missing from the
  array, as a call could find it only with a stale bucket count.
\<close>

definition one_bucket_table :: "(string, int) HashTable" where
  "one_bucket_table =
     \<lparr>buckets = [\<lparr>entries = [\<lparr>key = ''a'', val = 1\<rparr>]\<rparr>],
      size_ht = 1, bucketSize = 1, resizing = False, events = []\<rparr>"

definition table_a :: "(string, int) HashTable" where
  "table_a =
     \<lparr>buckets = [\<lparr>entries = [\<lparr>key = ''a'', val = 1\<rparr>]\<rparr>, \<lparr>entries = []\<rparr>,
                 \<lparr>entries = []\<rparr>, \<lparr>entries = []\<rparr>],
      size_ht = 1, bucketSize = 4, resizing = False, events = []\<rparr>"

section \<open>Auxiliary facts\<close>

lemma smod_nonneg_pos: "0 \<le> a \<Longrightarrow> 0 < n \<Longrightarrow> a smod n = a mod (n::int)"
  by (cases "a = 0") (simp_all add: signed_modulo_int_def sgn_if)

lemma fnv_index_pos: "0 < n \<Longrightarrow> fnv_index s n = Inr (uint (Sum32 s) mod n)"
  by (simp add: fnv_index_def smod_nonneg_pos)


lemma slot_less: "0 < n \<Longrightarrow> slot fmtv n k < n"
  by (simp add: slot_def nat_less_iff)

lemma fnv_index_slot: "0 < n \<Longrightarrow> fnv_index (fmtv k) (int n) = Inr (int (slot fmtv n k))"
  by (simp add: fnv_index_pos slot_def)

lemma placed_iff:
  "placed fmtv bs \<longleftrightarrow>
   (\<forall>i<length bs. \<forall>e\<in>set (entries (bs ! i)). slot fmtv (length bs) (key e) = i)"
proof -
  have "fnv_index (fmtv (key e)) (int (length bs)) = Inr (int i) \<longleftrightarrow>
        slot fmtv (length bs) (key e) = i" if "i < length bs" for i and e :: "('a, 'b) entry"
  proof -
    from that have "0 < length bs" by (cases bs) simp_all
    then show ?thesis by (simp add: fnv_index_slot)
  qed
  then show ?thesis by (auto simp: placed_def list_all_iff)
qed

lemma in_all_entries:
  "e \<in> set (all_entries bs) \<longleftrightarrow> (\<exists>i<length bs. e \<in> set (entries (bs ! i)))"
proof -
  have "e \<in> set (all_entries bs) \<longleftrightarrow> (\<exists>b\<in>set bs. e \<in> set (entries b))"
    by (auto simp: all_entries_def)
  also have "\<dots> \<longleftrightarrow> (\<exists>i<length bs. e \<in> set (entries (bs ! i)))"
    by (metis in_set_conv_nth)
  finally show ?thesis .
qed

lemma mset_all_entries_update:
  "j < length bs \<Longrightarrow>
   mset (all_entries (bs[j := b])) + mset (entries (bs ! j)) = mset (all_entries bs) + mset (entries b)"
proof (induction bs arbitrary: j)
  case Nil then show ?case by simp
next
  case (Cons a bs)
  then show ?case by (cases j) (auto simp: all_entries_def)
qed

lemma hash_inv:
  "0 < bucketSize ht \<Longrightarrow> int (length (buckets ht)) = bucketSize ht \<Longrightarrow>
   hash fmtv ht k = Inr (int (slot fmtv (length (buckets ht)) k), emit [RLock TableMu, RUnlock TableMu] ht)"
  by (auto simp: hash_def Let_def emit_def fnv_index_pos slot_def)

lemma Put_scan_snd: "snd (Put_scan es k v) \<longleftrightarrow> k \<in> key ` set es"
  by (induction es) (auto split: prod.splits)

lemma Put_scan_absent: "k \<notin> key ` set es \<Longrightarrow> Put_scan es k v = (es, False)"
  by (induction es) auto

lemma Put_scan_fst:
  "distinct (map key es) \<Longrightarrow>
   fst (Put_scan es k v) = map (\<lambda>e. if key e = k then e\<lparr>val := v\<rparr> else e) es"
proof (induction es)
  case Nil
  then show ?case by simp
next
  case (Cons a es)
  show ?case
  proof (cases "key a = k")
    case True
    with Cons.prems have "k \<notin> key ` set es" by auto
    then have "map (\<lambda>e. if key e = k then e\<lparr>val := v\<rparr> else e) es = es"
      by (intro map_idI) auto
    with True show ?thesis by simp
  next
    case False
    with Cons show ?thesis by (auto split: prod.splits)
  qed
qed

lemma Delete_scan_snd: "snd (Delete_scan es k) \<longleftrightarrow> k \<in> key ` set es"
  by (induction es) (auto split: prod.splits)

lemma Delete_scan_fst:
  "distinct (map key es) \<Longrightarrow> fst (Delete_scan es k) = filter (\<lambda>e. key e \<noteq> k) es"
proof (induction es)
  case Nil
  then show ?case by simp
next
  case (Cons a es)
  show ?case
  proof (cases "key a = k")
    case True
    with Cons.prems have "k \<notin> key ` set es" by auto
    then have "filter (\<lambda>e. key e \<noteq> k) es = es"
      by (intro filter_True) auto
    with True show ?thesis by simp
  next
    case False
    with Cons show ?thesis by (auto split: prod.splits)
  qed
qed

lemma Get_scan_eq:
  "Get_scan es k (z, False) = (case map_of (map kv es) k of None \<Rightarrow> (z, False) | Some v \<Rightarrow> (v, True))"
  by (induction es) (auto simp: kv_def)

lemma map_of_kv_Some_iff:
  "distinct (map key es) \<Longrightarrow>
   map_of (map kv es) k = Some v \<longleftrightarrow> (\<exists>e\<in>set es. key e = k \<and> val e = v)"
proof -
  assume d: "distinct (map key es)"
  have "fst \<circ> kv = (key :: ('a, 'b) entry \<Rightarrow> 'a)" by (rule ext) (simp add: kv_def)
  with d have "distinct (map fst (map kv es))" by simp
  then have "map_of (map kv es) k = Some v \<longleftrightarrow> (k, v) \<in> set (map kv es)"
    by (rule map_of_eq_Some_iff)
  also have "\<dots> \<longleftrightarrow> (\<exists>e\<in>set es. key e = k \<and> val e = v)"
    by (auto simp: kv_def)
  finally show ?thesis .
qed


lemma option_eqI: "(\<And>v. a = Some v \<longleftrightarrow> b = Some v) \<Longrightarrow> a = b"
  by (cases a; cases b; auto)


lemma map_of_kv_put:
  assumes "distinct (map key xs)" "distinct (map key ys)"
    and "set ys = {e \<in> set xs. key e \<noteq> k} \<union> {\<lparr>key = k, val = v\<rparr>}"
  shows "map_of (map kv ys) = (map_of (map kv xs))(k \<mapsto> v)"
proof (rule ext, rule option_eqI)
  fix k' v'
  show "map_of (map kv ys) k' = Some v' \<longleftrightarrow> ((map_of (map kv xs))(k \<mapsto> v)) k' = Some v'"
    using assms(3) by (auto simp: map_of_kv_Some_iff [OF assms(1)] map_of_kv_Some_iff [OF assms(2)])
qed


lemma map_of_kv_delete:
  assumes "distinct (map key xs)" "distinct (map key ys)"
    and "set ys = {e \<in> set xs. key e \<noteq> k}"
  shows "map_of (map kv ys) = (map_of (map kv xs))(k := None)"
proof (rule ext, rule option_eqI)
  fix k' v'
  show "map_of (map kv ys) k' = Some v' \<longleftrightarrow> ((map_of (map kv xs))(k := None)) k' = Some v'"
    using assms(3) by (auto simp: map_of_kv_Some_iff [OF assms(1)] map_of_kv_Some_iff [OF assms(2)])
qed


lemma map_of_kv_same:
  assumes "distinct (map key xs)" "distinct (map key ys)" and "set ys = set xs"
  shows "map_of (map kv ys) = map_of (map kv xs)"
proof (rule ext, rule option_eqI)
  fix k' v'
  show "map_of (map kv ys) k' = Some v' \<longleftrightarrow> map_of (map kv xs) k' = Some v'"
    using assms(3) by (auto simp: map_of_kv_Some_iff [OF assms(1)] map_of_kv_Some_iff [OF assms(2)])
qed


lemma placed_update:
  assumes "placed fmtv bs" and "\<forall>e\<in>set (entries b). slot fmtv (length bs) (key e) = j"
  shows "placed fmtv (bs[j := b])"
  unfolding placed_iff
proof (intro allI impI ballI)
  fix i e
  assume i: "i < length (bs[j := b])" and e: "e \<in> set (entries (bs[j := b] ! i))"
  show "slot fmtv (length (bs[j := b])) (key e) = i"
  proof (cases "i = j")
    case True
    with i e assms(2) show ?thesis by simp
  next
    case False
    with i e assms(1) show ?thesis by (simp add: placed_iff)
  qed
qed


lemma set_all_entries_update:
  assumes "placed fmtv bs" and "j < length bs" and "j = slot fmtv (length bs) k"
    and "set (entries b) = {e \<in> set (entries (bs ! j)). key e \<noteq> k} \<union> X"
  shows "set (all_entries (bs[j := b])) = {e \<in> set (all_entries bs). key e \<noteq> k} \<union> X"
proof (rule set_eqI)
  fix e
  let ?others = "\<exists>i<length bs. i \<noteq> j \<and> e \<in> set (entries (bs ! i))"
  have other: "key e \<noteq> k" if "i < length bs" "i \<noteq> j" "e \<in> set (entries (bs ! i))" for i
  proof -
    from assms(1) that have "slot fmtv (length bs) (key e) = i" by (simp add: placed_iff)
    with that(2) assms(3) show ?thesis by auto
  qed
  have A: "e \<in> set (all_entries (bs[j := b])) \<longleftrightarrow> e \<in> set (entries b) \<or> ?others"
  proof
    assume "e \<in> set (all_entries (bs[j := b]))"
    then obtain i where i: "i < length bs" "e \<in> set (entries (bs[j := b] ! i))"
      unfolding in_all_entries by auto
    then show "e \<in> set (entries b) \<or> ?others"
      by (cases "i = j") auto
  next
    assume "e \<in> set (entries b) \<or> ?others"
    then show "e \<in> set (all_entries (bs[j := b]))"
    proof
      assume "e \<in> set (entries b)"
      with assms(2) have "j < length (bs[j := b]) \<and> e \<in> set (entries (bs[j := b] ! j))" by simp
      then show ?thesis unfolding in_all_entries by blast
    next
      assume ?others
      then obtain i where "i < length bs" "i \<noteq> j" "e \<in> set (entries (bs ! i))" by blast
      then have "i < length (bs[j := b]) \<and> e \<in> set (entries (bs[j := b] ! i))" by simp
      then show ?thesis unfolding in_all_entries by blast
    qed
  qed
  have B: "e \<in> set (all_entries bs) \<and> key e \<noteq> k \<longleftrightarrow>
           (e \<in> set (entries (bs ! j)) \<and> key e \<noteq> k) \<or> ?others"
  proof
    assume a: "e \<in> set (all_entries bs) \<and> key e \<noteq> k"
    then obtain i where i: "i < length bs" "e \<in> set (entries (bs ! i))"
      unfolding in_all_entries by auto
    with a show "(e \<in> set (entries (bs ! j)) \<and> key e \<noteq> k) \<or> ?others"
      by (cases "i = j") auto
  next
    assume "(e \<in> set (entries (bs ! j)) \<and> key e \<noteq> k) \<or> ?others"
    then show "e \<in> set (all_entries bs) \<and> key e \<noteq> k"
    proof
      assume "e \<in> set (entries (bs ! j)) \<and> key e \<noteq> k"
      with assms(2) show ?thesis unfolding in_all_entries by auto
    next
      assume ?others
      then obtain i where "i < length bs" "i \<noteq> j" "e \<in> set (entries (bs ! i))" by auto
      with other [of i] show ?thesis unfolding in_all_entries by auto
    qed
  qed
  have C: "e \<in> set (entries b) \<longleftrightarrow> (e \<in> set (entries (bs ! j)) \<and> key e \<noteq> k) \<or> e \<in> X"
    using assms(4) by auto
  show "e \<in> set (all_entries (bs[j := b])) \<longleftrightarrow> e \<in> {e \<in> set (all_entries bs). key e \<noteq> k} \<union> X"
  proof -
    have "e \<in> {e \<in> set (all_entries bs). key e \<noteq> k} \<union> X \<longleftrightarrow>
          (e \<in> set (all_entries bs) \<and> key e \<noteq> k) \<or> e \<in> X"
      by simp
    also have "\<dots> \<longleftrightarrow> ((e \<in> set (entries (bs ! j)) \<and> key e \<noteq> k) \<or> ?others) \<or> e \<in> X"
      by (simp only: B)
    also have "\<dots> \<longleftrightarrow> e \<in> set (entries b) \<or> ?others"
      by (simp only: C disj_ac)
    finally show ?thesis by (simp only: A)
  qed
qed


lemma rehash_entries_ok:
  assumes "0 < length nb" "placed fmtv nb"
  shows "\<exists>nb' evs. rehash_entries fmtv (int (length nb)) es (nb, h) = Inr (nb', emit evs h) \<and>
           length nb' = length nb \<and> placed fmtv nb' \<and>
           mset (all_entries nb') = mset (all_entries nb) + mset es"
  using assms
proof (induction es arbitrary: nb h)
  case Nil
  have "rehash_entries fmtv (int (length nb)) [] (nb, h) = Inr (nb, emit [] h)"
    by (simp add: emit_def)
  with Nil show ?case by (intro exI [of _ nb] exI [of _ "[]"]) simp
next
  case (Cons e es)
  define j where "j = slot fmtv (length nb) (key e)"
  define b where "b = (nb ! j)\<lparr>entries := entries (nb ! j) @ [e]\<rparr>"
  define h1 where "h1 = emit [Lock (BucketMu (length nb) j), Unlock (BucketMu (length nb) j)] h"
  have j: "j < length nb" using Cons.prems(1) by (simp add: j_def slot_less)
  have step: "rehash_entries fmtv (int (length nb)) (e # es) (nb, h) =
              rehash_entries fmtv (int (length nb)) es (nb[j := b], h1)"
    using j Cons.prems(1)
    by (simp add: fnv_index_slot j_def [symmetric] Let_def b_def h1_def emit_def)
  have pl: "placed fmtv (nb[j := b])"
    using Cons.prems(2) j by (intro placed_update) (auto simp: b_def placed_iff j_def)
  have len: "length (nb[j := b]) = length nb" by simp
  from Cons.IH [of "nb[j := b]" h1] Cons.prems(1) pl
  obtain nb' evs where r: "rehash_entries fmtv (int (length nb)) es (nb[j := b], h1) = Inr (nb', emit evs h1)"
    and l: "length nb' = length nb" and p: "placed fmtv nb'"
    and m: "mset (all_entries nb') = mset (all_entries (nb[j := b])) + mset es"
    by auto
  have "mset (all_entries (nb[j := b])) + mset (entries (nb ! j)) =
        mset (all_entries nb) + mset (entries b)"
    using j by (rule mset_all_entries_update)
  then have m2: "mset (all_entries (nb[j := b])) = mset (all_entries nb) + {#e#}"
    by (simp add: b_def)
  have "emit evs h1 = emit ([Lock (BucketMu (length nb) j), Unlock (BucketMu (length nb) j)] @ evs) h"
    by (simp add: h1_def emit_def)
  with step r have "rehash_entries fmtv (int (length nb)) (e # es) (nb, h) =
      Inr (nb', emit ([Lock (BucketMu (length nb) j), Unlock (BucketMu (length nb) j)] @ evs) h)"
    by simp
  moreover have "mset (all_entries nb') = mset (all_entries nb) + mset (e # es)"
    using m m2 by simp
  ultimately show ?case using l p by blast
qed


lemma rehash_buckets_ok:
  assumes "0 < length nb" "placed fmtv nb"
  shows "\<exists>nb' evs. rehash_buckets fmtv (int (length nb)) oldLen i olds (nb, h) = Inr (nb', emit evs h) \<and>
           length nb' = length nb \<and> placed fmtv nb' \<and>
           mset (all_entries nb') = mset (all_entries nb) + mset (all_entries olds)"
  using assms
proof (induction olds arbitrary: nb h i)
  case Nil
  have "rehash_buckets fmtv (int (length nb)) oldLen i [] (nb, h) = Inr (nb, emit [] h)"
    by (simp add: emit_def)
  with Nil show ?case by (intro exI [of _ nb] exI [of _ "[]"]) (simp add: all_entries_def)
next
  case (Cons b olds)
  define h1 where "h1 = emit [Lock (BucketMu oldLen i), Unlock (BucketMu oldLen i)] h"
  from rehash_entries_ok [OF Cons.prems, of "entries b" h1]
  obtain nb1 evs1 where r1: "rehash_entries fmtv (int (length nb)) (entries b) (nb, h1) = Inr (nb1, emit evs1 h1)"
    and l1: "length nb1 = length nb" and p1: "placed fmtv nb1"
    and m1: "mset (all_entries nb1) = mset (all_entries nb) + mset (entries b)"
    by blast
  have step: "rehash_buckets fmtv (int (length nb)) oldLen i (b # olds) (nb, h) =
              rehash_buckets fmtv (int (length nb)) oldLen (Suc i) olds (nb1, emit evs1 h1)"
    using r1 by (simp add: Let_def h1_def emit_def)
  from Cons.prems(1) l1 have pos: "0 < length nb1" by simp
  from Cons.IH [OF pos p1, of "Suc i" "emit evs1 h1"] l1
  obtain nb' evs where r: "rehash_buckets fmtv (int (length nb)) oldLen (Suc i) olds (nb1, emit evs1 h1) =
        Inr (nb', emit evs (emit evs1 h1))"
    and l: "length nb' = length nb" and p: "placed fmtv nb'"
    and m: "mset (all_entries nb') = mset (all_entries nb1) + mset (all_entries olds)"
    by auto
  have e: "emit evs (emit evs1 h1) =
           emit ([Lock (BucketMu oldLen i), Unlock (BucketMu oldLen i)] @ evs1 @ evs) h"
    by (simp add: h1_def emit_def)
  have "mset (all_entries nb') = mset (all_entries nb) + mset (all_entries (b # olds))"
    using m m1 by (simp add: all_entries_def)
  moreover have "rehash_buckets fmtv (int (length nb)) oldLen i (b # olds) (nb, h) =
      Inr (nb', emit ([Lock (BucketMu oldLen i), Unlock (BucketMu oldLen i)] @ evs1 @ evs) h)"
    using step r e by simp
  ultimately show ?case using l p by blast
qed


lemma same_mset_entries:
  assumes "mset xs = mset (ys :: ('k, 'v) entry list)"
  shows "length xs = length ys" and "set xs = set ys"
    and "distinct (map key xs) \<longleftrightarrow> distinct (map key ys)"
proof -
  from assms show "length xs = length ys" by (rule mset_eq_length)
  from assms show "set xs = set ys" by (rule mset_eq_setD)
  from assms have "mset (map key xs) = mset (map key ys)" by simp
  then show "distinct (map key xs) \<longleftrightarrow> distinct (map key ys)"
    by (rule mset_eq_imp_distinct_iff)
qed

lemma all_entries_replicate: "all_entries (replicate n \<lparr>entries = []\<rparr>) = []"
  by (induction n) (simp_all add: all_entries_def)

lemma placed_replicate: "placed fmtv (replicate n \<lparr>entries = []\<rparr>)"
  by (simp add: placed_iff)

lemma table_inv_New: "table_inv fmtv (New n)"
  by (simp add: table_inv_def New_def Let_def all_entries_replicate placed_replicate)

lemma tryResize_ok:
  assumes "table_inv fmtv ht"
  shows "\<exists>ht' evs. tryResize fmtv ht = Inr ht' \<and> table_inv fmtv ht' \<and>
           stored ht' = stored ht \<and> present_keys ht' = present_keys ht \<and>
           size_ht ht' = size_ht ht \<and> events ht' = events ht @ Lock TableMu # evs \<and>
           bucketSize ht' = (if loadExceeds (size_ht ht) (bucketSize ht)
                             then 2 * bucketSize ht else bucketSize ht)"
proof (cases "loadExceeds (size_ht ht) (bucketSize ht)")
  case False
  define ht' where "ht' = tryResize_deferred (emit [Lock TableMu] (ht\<lparr>resizing := True\<rparr>))"
  from assms False have "tryResize fmtv ht = Inr ht'"
    by (simp add: tryResize_def table_inv_def Let_def ht'_def emit_def)
  moreover have "buckets ht' = buckets ht" "size_ht ht' = size_ht ht" "bucketSize ht' = bucketSize ht"
    "\<not> resizing ht'" "events ht' = events ht @ [Lock TableMu, Unlock TableMu]"
    by (simp_all add: ht'_def tryResize_deferred_def emit_def)
  ultimately show ?thesis using assms False
    by (simp add: table_inv_def stored_def present_keys_def)
next
  case True
  define n where "n = length (buckets ht)"
  define nb0 :: "('a, 'b) bucket list" where "nb0 = replicate (2 * n) \<lparr>entries = []\<rparr>"
  define ht1 where "ht1 = emit [Lock TableMu] (ht\<lparr>resizing := True\<rparr>)"
  from assms have n: "0 < n" "bucketSize ht = int n"
    by (auto simp: table_inv_def n_def)
  have len0: "length nb0 = 2 * n" by (simp add: nb0_def)
  have pos0: "0 < length nb0" using n len0 by simp
  have pl0: "placed fmtv nb0" by (simp add: nb0_def placed_replicate)
  have h1: "buckets ht1 = buckets ht" "size_ht ht1 = size_ht ht" "bucketSize ht1 = bucketSize ht"
    by (simp_all add: ht1_def emit_def)
  from rehash_buckets_ok [OF pos0 pl0, of "length (buckets ht1)" 0 "buckets ht1" ht1]
  obtain nb' evs where r: "rehash_buckets fmtv (int (length nb0)) (length (buckets ht1)) 0 (buckets ht1) (nb0, ht1) = Inr (nb', emit evs ht1)"
    and l: "length nb' = length nb0" and p: "placed fmtv nb'"
    and m: "mset (all_entries nb') = mset (all_entries nb0) + mset (all_entries (buckets ht1))"
    by blast
  from m have m': "mset (all_entries nb') = mset (all_entries (buckets ht))"
    by (simp add: nb0_def all_entries_replicate h1)
  define ht' where "ht' = tryResize_deferred ((emit evs ht1)\<lparr>buckets := nb', bucketSize := int (length nb0)\<rparr>)"
  have nr: "\<not> resizing ht" using assms by (simp add: table_inv_def)
  have le: "loadExceeds (size_ht ht1) (bucketSize ht1)" using True by (simp add: h1)
  have e4: "bucketSize ht1 * 2 = int (length nb0)" using n by (simp add: h1 len0)
  have e5: "replicate (length nb0) \<lparr>entries = []\<rparr> = nb0" by (simp add: nb0_def)
  have "tryResize fmtv ht = Inr ht'"
    unfolding tryResize_def Let_def ht1_def [symmetric]
    by (simp add: nr le e4 e5 r ht'_def)
  moreover have f: "buckets ht' = nb'" "size_ht ht' = size_ht ht" "bucketSize ht' = 2 * int n"
    "\<not> resizing ht'" "events ht' = events ht @ ([Lock TableMu] @ evs @ [Unlock TableMu])"
    by (simp_all add: ht'_def ht1_def tryResize_deferred_def emit_def len0)
  moreover have "table_inv fmtv ht'"
    using assms f n l len0 p same_mset_entries [OF m']
    by (simp add: table_inv_def)
  moreover have "stored ht' = stored ht"
    unfolding stored_def f
    using assms same_mset_entries [OF m']
    by (intro map_of_kv_same) (simp_all add: table_inv_def)
  moreover have "present_keys ht' = present_keys ht"
    using same_mset_entries(2) [OF m'] by (simp add: present_keys_def f)
  ultimately show ?thesis using True n by (intro exI conjI) simp_all
qed


lemma distinct_bucket:
  assumes "distinct (map key (all_entries bs))" and "i < length bs"
  shows "distinct (map key (entries (bs ! i)))"
proof -
  have "map key (all_entries bs) = concat (map (\<lambda>b. map key (entries b)) bs)"
    by (simp add: all_entries_def map_concat comp_def)
  with assms(1) have "\<forall>ys\<in>set (map (\<lambda>b. map key (entries b)) bs). distinct ys"
    by (simp add: distinct_concat_iff)
  with assms(2) show ?thesis by simp
qed

lemma key_in_bucket:
  assumes "placed fmtv bs" and "0 < length bs"
  shows "k \<in> key ` set (all_entries bs) \<longleftrightarrow>
         k \<in> key ` set (entries (bs ! slot fmtv (length bs) k))"
proof
  assume "k \<in> key ` set (all_entries bs)"
  then obtain e where e: "e \<in> set (all_entries bs)" "key e = k" by auto
  then obtain i where i: "i < length bs" "e \<in> set (entries (bs ! i))"
    unfolding in_all_entries by auto
  with assms(1) have "slot fmtv (length bs) (key e) = i" by (simp add: placed_iff)
  with e i show "k \<in> key ` set (entries (bs ! slot fmtv (length bs) k))" by auto
next
  assume "k \<in> key ` set (entries (bs ! slot fmtv (length bs) k))"
  then obtain e where e: "e \<in> set (entries (bs ! slot fmtv (length bs) k))" "key e = k" by auto
  from assms(2) have "slot fmtv (length bs) k < length bs" by (rule slot_less)
  with e have "e \<in> set (all_entries bs)" unfolding in_all_entries by auto
  with e show "k \<in> key ` set (all_entries bs)" by auto
qed

lemma stored_bucket:
  assumes "placed fmtv bs" and "0 < length bs" and "distinct (map key (all_entries bs))"
  shows "map_of (map kv (all_entries bs)) k =
         map_of (map kv (entries (bs ! slot fmtv (length bs) k))) k"
proof (rule option_eqI)
  fix v
  let ?j = "slot fmtv (length bs) k"
  have j: "?j < length bs" using assms(2) by (rule slot_less)
  have d: "distinct (map key (entries (bs ! ?j)))" using assms(3) j by (rule distinct_bucket)
  have "(\<exists>e\<in>set (all_entries bs). key e = k \<and> val e = v) \<longleftrightarrow>
        (\<exists>e\<in>set (entries (bs ! ?j)). key e = k \<and> val e = v)"
  proof
    assume "\<exists>e\<in>set (all_entries bs). key e = k \<and> val e = v"
    then obtain e where e: "e \<in> set (all_entries bs)" "key e = k" "val e = v" by auto
    then obtain i where i: "i < length bs" "e \<in> set (entries (bs ! i))"
      unfolding in_all_entries by auto
    with assms(1) have "slot fmtv (length bs) (key e) = i" by (simp add: placed_iff)
    with e i show "\<exists>e\<in>set (entries (bs ! ?j)). key e = k \<and> val e = v" by auto
  next
    assume "\<exists>e\<in>set (entries (bs ! ?j)). key e = k \<and> val e = v"
    then obtain e where e: "e \<in> set (entries (bs ! ?j))" "key e = k" "val e = v" by auto
    with j have "e \<in> set (all_entries bs)" unfolding in_all_entries by auto
    with e show "\<exists>e\<in>set (all_entries bs). key e = k \<and> val e = v" by auto
  qed
  then show "map_of (map kv (all_entries bs)) k = Some v \<longleftrightarrow>
        map_of (map kv (entries (bs ! ?j))) k = Some v"
    by (simp only: map_of_kv_Some_iff [OF assms(3)] map_of_kv_Some_iff [OF d])
qed

lemma Get_ok:
  assumes "table_inv fmtv ht"
  shows "Get fmtv zeroV ht k =
         Some (Inr ((case stored ht k of None \<Rightarrow> (zeroV, False) | Some v \<Rightarrow> (v, True)),
                    emit [RLock TableMu, RUnlock TableMu,
                          RLock (BucketMu (length (buckets ht)) (slot fmtv (length (buckets ht)) k)),
                          RUnlock (BucketMu (length (buckets ht)) (slot fmtv (length (buckets ht)) k))] ht))"
proof -
  let ?n = "length (buckets ht)"
  let ?j = "slot fmtv ?n k"
  let ?h = "emit [RLock TableMu, RUnlock TableMu] ht"
  from assms have pos: "0 < bucketSize ht" and len: "int ?n = bucketSize ht"
    and pl: "placed fmtv (buckets ht)" and d: "distinct (map key (all_entries (buckets ht)))"
    by (simp_all add: table_inv_def)
  from pos len have n: "0 < ?n" by linarith
  have j: "?j < ?n" using n by (rule slot_less)
  have h: "hash fmtv ht k = Inr (int ?j, ?h)" using pos len by (rule hash_inv)
  have bh: "buckets ?h = buckets ht" by (simp add: emit_def)
  have "Get fmtv zeroV ht k = Some (Inr (Get_iter zeroV ?h ?j k))"
    using j by (subst Get.simps) (simp add: h bh)
  moreover have "Get_iter zeroV ?h ?j k =
      ((case stored ht k of None \<Rightarrow> (zeroV, False) | Some v \<Rightarrow> (v, True)),
       emit [RLock TableMu, RUnlock TableMu, RLock (BucketMu ?n ?j), RUnlock (BucketMu ?n ?j)] ht)"
    by (simp add: Get_iter_def Let_def bh Get_scan_eq stored_def stored_bucket [OF pl n d] emit_def)
  ultimately show ?thesis by simp
qed


lemma Delete_scan_length:
  "length (fst (Delete_scan es k)) + (if snd (Delete_scan es k) then 1 else 0) = length es"
  by (induction es) (auto split: prod.splits)

lemma distinct_keys_submset:
  assumes "mset xs + R = mset ys" and "distinct (map key ys)"
  shows "distinct (map key xs)"
proof -
  obtain zs where "R = mset zs" using ex_mset [of R] by auto
  with assms(1) have "mset (xs @ zs) = mset ys" by simp
  then have "mset (map key (xs @ zs)) = mset (map key ys)" by (metis mset_map)
  then have "distinct (map key (xs @ zs)) \<longleftrightarrow> distinct (map key ys)"
    by (rule mset_eq_imp_distinct_iff)
  with assms(2) show ?thesis by simp
qed

lemma bucket_delete:
  assumes "placed fmtv bs" and "0 < length bs" and "distinct (map key (all_entries bs))"
    and "j = slot fmtv (length bs) k" and "k \<in> key ` set (all_entries bs)"
    and "bs' = bs[j := (bs ! j)\<lparr>entries := fst (Delete_scan (entries (bs ! j)) k)\<rparr>]"
  shows "placed fmtv bs'" and "distinct (map key (all_entries bs'))"
    and "set (all_entries bs') = {e \<in> set (all_entries bs). key e \<noteq> k}"
    and "int (length (all_entries bs')) = int (length (all_entries bs)) - 1"
proof -
  let ?es = "entries (bs ! j)"
  let ?es' = "fst (Delete_scan ?es k)"
  have j: "j < length bs" using assms(2,4) by (simp add: slot_less)
  have d: "distinct (map key ?es)" using assms(3) j by (rule distinct_bucket)
  have es': "?es' = filter (\<lambda>e. key e \<noteq> k) ?es" using d by (rule Delete_scan_fst)
  have pres: "k \<in> key ` set ?es"
    using assms(5) key_in_bucket [OF assms(1,2)] assms(4) by simp
  have m: "mset (all_entries bs') + mset ?es = mset (all_entries bs) + mset ?es'"
    unfolding assms(6) using j by (simp add: mset_all_entries_update)
  show "placed fmtv bs'"
    unfolding assms(6) using assms(1) j
    by (intro placed_update) (auto simp: es' placed_iff)
  show "set (all_entries bs') = {e \<in> set (all_entries bs). key e \<noteq> k}"
    unfolding assms(6)
    using set_all_entries_update [OF assms(1) j assms(4), of "(bs ! j)\<lparr>entries := ?es'\<rparr>" "{}"]
    by (simp add: es')
  obtain R where R: "mset ?es = mset ?es' + R"
    unfolding es' mset_filter using multiset_partition by blast
  have "mset (all_entries bs') + R = mset (all_entries bs)"
    using m unfolding R by simp
  then show "distinct (map key (all_entries bs'))"
    using assms(3) by (rule distinct_keys_submset)
  from m have "size (mset (all_entries bs') + mset ?es) = size (mset (all_entries bs) + mset ?es')"
    by simp
  then have "length (all_entries bs') + length ?es = length (all_entries bs) + length ?es'"
    by simp
  moreover have "length ?es' + 1 = length ?es"
    using Delete_scan_length [of ?es k] pres by (simp add: Delete_scan_snd)
  ultimately show "int (length (all_entries bs')) = int (length (all_entries bs)) - 1"
    by linarith
qed


lemma Put_scan_keys: "map key (fst (Put_scan es k v)) = map key es"
  by (induction es) (auto split: prod.splits)

lemma bucket_insert:
  assumes "placed fmtv bs" and "0 < length bs" and "distinct (map key (all_entries bs))"
    and "j = slot fmtv (length bs) k" and "k \<notin> key ` set (all_entries bs)"
    and "bs' = bs[j := (bs ! j)\<lparr>entries := entries (bs ! j) @ [\<lparr>key = k, val = v\<rparr>]\<rparr>]"
  shows "placed fmtv bs'" and "distinct (map key (all_entries bs'))"
    and "set (all_entries bs') = {e \<in> set (all_entries bs). key e \<noteq> k} \<union> {\<lparr>key = k, val = v\<rparr>}"
    and "int (length (all_entries bs')) = int (length (all_entries bs)) + 1"
proof -
  let ?es = "entries (bs ! j)"
  let ?new = "\<lparr>key = k, val = v\<rparr>"
  have j: "j < length bs" using assms(2,4) by (simp add: slot_less)
  have m: "mset (all_entries bs') + mset ?es = mset (all_entries bs) + mset (?es @ [?new])"
    unfolding assms(6) using j by (simp add: mset_all_entries_update)
  then have m': "mset (all_entries bs') = mset (?new # all_entries bs)" by simp
  show "placed fmtv bs'"
    unfolding assms(6) using assms(1,4) j
    by (intro placed_update) (auto simp: placed_iff)
  have "k \<notin> key ` set ?es"
    using assms(5) key_in_bucket [OF assms(1,2)] assms(4) by simp
  then have "set ?es = {e \<in> set ?es. key e \<noteq> k}" by auto
  then have "set (entries ((bs ! j)\<lparr>entries := ?es @ [?new]\<rparr>)) = {e \<in> set ?es. key e \<noteq> k} \<union> {?new}"
    by simp
  from set_all_entries_update [OF assms(1) j assms(4) this]
  show "set (all_entries bs') = {e \<in> set (all_entries bs). key e \<noteq> k} \<union> {?new}"
    unfolding assms(6) .
  from m' have "mset (map key (all_entries bs')) = mset (map key (?new # all_entries bs))"
    by (metis mset_map)
  then have "distinct (map key (all_entries bs')) \<longleftrightarrow> distinct (map key (?new # all_entries bs))"
    by (rule mset_eq_imp_distinct_iff)
  with assms(3,5) show "distinct (map key (all_entries bs'))" by simp
  from m' have "length (all_entries bs') = length (?new # all_entries bs)"
    by (rule mset_eq_length)
  then show "int (length (all_entries bs')) = int (length (all_entries bs)) + 1" by simp
qed

lemma update_entry: "key e = k \<Longrightarrow> e\<lparr>val := v\<rparr> = \<lparr>key = k, val = v\<rparr>"
  by (cases e) simp

lemma bucket_update:
  assumes "placed fmtv bs" and "0 < length bs" and "distinct (map key (all_entries bs))"
    and "j = slot fmtv (length bs) k" and "k \<in> key ` set (all_entries bs)"
    and "bs' = bs[j := (bs ! j)\<lparr>entries := fst (Put_scan (entries (bs ! j)) k v)\<rparr>]"
  shows "placed fmtv bs'" and "distinct (map key (all_entries bs'))"
    and "set (all_entries bs') = {e \<in> set (all_entries bs). key e \<noteq> k} \<union> {\<lparr>key = k, val = v\<rparr>}"
    and "length (all_entries bs') = length (all_entries bs)"
    and "map (\<lambda>b. map key (entries b)) bs' = map (\<lambda>b. map key (entries b)) bs"
proof -
  let ?es = "entries (bs ! j)"
  let ?es' = "fst (Put_scan ?es k v)"
  let ?new = "\<lparr>key = k, val = v\<rparr>"
  have j: "j < length bs" using assms(2,4) by (simp add: slot_less)
  have d: "distinct (map key ?es)" using assms(3) j by (rule distinct_bucket)
  have pres: "k \<in> key ` set ?es"
    using assms(5) key_in_bucket [OF assms(1,2)] assms(4) by simp
  have keys: "map key ?es' = map key ?es" by (rule Put_scan_keys)
  have es': "?es' = map (\<lambda>e. if key e = k then e\<lparr>val := v\<rparr> else e) ?es"
    using d by (rule Put_scan_fst)
  let ?f = "\<lambda>b. map key (entries b)"
  have "map ?f bs' = (map ?f bs)[j := map key ?es']"
    unfolding assms(6) by (simp add: map_update)
  also have "\<dots> = (map ?f bs)[j := (map ?f bs) ! j]"
    using j by (simp only: keys nth_map)
  also have "\<dots> = map ?f bs" by (rule list_update_id)
  finally show same: "map ?f bs' = map ?f bs" .
  have "map key (all_entries bs') = map key (all_entries bs)"
    using same by (simp add: all_entries_def map_concat comp_def)
  with assms(3) show "distinct (map key (all_entries bs'))" by simp
  from \<open>map key (all_entries bs') = map key (all_entries bs)\<close>
  show "length (all_entries bs') = length (all_entries bs)" by (rule map_eq_imp_length_eq)
  have "\<forall>e\<in>set ?es'. key e \<in> key ` set ?es"
    using keys by (metis image_set imageI)
  then show "placed fmtv bs'"
    unfolding assms(6) using assms(1) j
    by (intro placed_update) (auto simp: placed_iff)
  have "set ?es' = {e \<in> set ?es. key e \<noteq> k} \<union> {?new}"
  proof (rule set_eqI)
    fix x
    show "x \<in> set ?es' \<longleftrightarrow> x \<in> {e \<in> set ?es. key e \<noteq> k} \<union> {?new}"
    proof
      assume "x \<in> set ?es'"
      then obtain e where e: "e \<in> set ?es" "x = (if key e = k then e\<lparr>val := v\<rparr> else e)"
        unfolding es' by auto
      then show "x \<in> {e \<in> set ?es. key e \<noteq> k} \<union> {?new}"
        by (cases "key e = k") (simp_all add: update_entry)
    next
      assume x: "x \<in> {e \<in> set ?es. key e \<noteq> k} \<union> {?new}"
      show "x \<in> set ?es'"
      proof (cases "x = ?new")
        case True
        from pres obtain e where e: "e \<in> set ?es" "key e = k" by auto
        from e(1) have "(if key e = k then e\<lparr>val := v\<rparr> else e) \<in> set ?es'"
          unfolding es' set_map by (rule imageI)
        with \<open>key e = k\<close> True show ?thesis by (simp add: update_entry)
      next
        case False
        with x have xs: "x \<in> set ?es" "key x \<noteq> k" by auto
        from xs(1) have "(if key x = k then x\<lparr>val := v\<rparr> else x) \<in> set ?es'"
          unfolding es' set_map by (rule imageI)
        with \<open>key x \<noteq> k\<close> show ?thesis by simp
      qed
    qed
  qed
  then have "set (entries ((bs ! j)\<lparr>entries := ?es'\<rparr>)) = {e \<in> set ?es. key e \<noteq> k} \<union> {?new}"
    by simp
  from set_all_entries_update [OF assms(1) j assms(4) this]
  show "set (all_entries bs') = {e \<in> set (all_entries bs). key e \<noteq> k} \<union> {?new}"
    unfolding assms(6) .
qed


lemma present_keys_stored: "present_keys ht = dom (stored ht)"
proof -
  have "fst ` set (map kv (all_entries (buckets ht))) = key ` set (all_entries (buckets ht))"
    by (auto simp: kv_def image_iff)
  then show ?thesis by (simp add: present_keys_def stored_def dom_map_of_conv_image_fst)
qed

lemma Delete_scan_absent: "k \<notin> key ` set es \<Longrightarrow> Delete_scan es k = (es, False)"
  by (induction es) auto

lemma Delete_ok:
  assumes "table_inv fmtv ht"
  shows "\<exists>ht'. Delete fmtv ht k = Some (Inr (k \<in> present_keys ht, ht')) \<and> table_inv fmtv ht' \<and>
           stored ht' = (stored ht)(k := None) \<and>
           size_ht ht' = size_ht ht - (if k \<in> present_keys ht then 1 else 0) \<and>
           bucketSize ht' = bucketSize ht \<and>
           (k \<notin> present_keys ht \<longrightarrow> buckets ht' = buckets ht) \<and>
           events ht' = events ht @
             [RLock TableMu, RUnlock TableMu,
              Lock (BucketMu (length (buckets ht)) (slot fmtv (length (buckets ht)) k)),
              Unlock (BucketMu (length (buckets ht)) (slot fmtv (length (buckets ht)) k))]"
proof -
  let ?bs = "buckets ht"
  let ?n = "length ?bs"
  let ?j = "slot fmtv ?n k"
  let ?m = "BucketMu ?n ?j"
  let ?h = "emit [RLock TableMu, RUnlock TableMu] ht"
  let ?es = "entries (?bs ! ?j)"
  from assms have pos: "0 < bucketSize ht" and len: "int ?n = bucketSize ht"
    and pl: "placed fmtv ?bs" and d: "distinct (map key (all_entries ?bs))"
    and sz: "size_ht ht = int (length (all_entries ?bs))" and nr: "\<not> resizing ht"
    by (simp_all add: table_inv_def)
  from pos len have n: "0 < ?n" by linarith
  have j: "?j < ?n" using n by (rule slot_less)
  have h: "hash fmtv ht k = Inr (int ?j, ?h)" using pos len by (rule hash_inv)
  have bh: "buckets ?h = ?bs" by (simp add: emit_def)
  have D: "Delete fmtv ht k = Some (Inr (Delete_iter ?h ?j k))"
    using j by (subst Delete.simps) (simp add: h bh)
  have pres: "k \<in> present_keys ht \<longleftrightarrow> snd (Delete_scan ?es k)"
    using key_in_bucket [OF pl n, of k] by (simp add: present_keys_def Delete_scan_snd)
  show ?thesis
  proof (cases "k \<in> present_keys ht")
    case False
    then have "Delete_scan ?es k = (?es, False)"
      using pres by (simp add: Delete_scan_snd Delete_scan_absent)
    then have I: "Delete_iter ?h ?j k = (False, emit [Lock ?m, Unlock ?m] ?h)"
      by (simp add: Delete_iter_def Let_def bh emit_def)
    have "stored ht k = None" using False by (auto simp: present_keys_stored)
    then have "(stored ht)(k := None) = stored ht" by (rule fun_upd_idem)
    with assms False D I show ?thesis
      by (simp add: table_inv_def stored_def emit_def)
  next
    case True
    define bs' where "bs' = ?bs[?j := (?bs ! ?j)\<lparr>entries := fst (Delete_scan ?es k)\<rparr>]"
    define ht' where "ht' = emit [Unlock ?m] ((emit [Lock ?m] ?h)\<lparr>buckets := bs', size_ht := size_ht ht - 1\<rparr>)"
    from True have kin: "k \<in> key ` set (all_entries ?bs)" by (simp add: present_keys_def)
    note bd = bucket_delete [OF pl n d refl kin bs'_def]
    have sn: "snd (Delete_scan ?es k)" using True pres by simp
    have I: "Delete_iter ?h ?j k = (True, ht')"
      using sn by (simp add: Delete_iter_def Let_def bh split_beta ht'_def bs'_def emit_def)
    have f: "buckets ht' = bs'" "size_ht ht' = size_ht ht - 1" "bucketSize ht' = bucketSize ht"
      "resizing ht' = resizing ht" "events ht' = events ht @ [RLock TableMu, RUnlock TableMu, Lock ?m, Unlock ?m]"
      by (simp_all add: ht'_def emit_def)
    have lb: "length bs' = ?n" by (simp add: bs'_def)
    have inv: "table_inv fmtv ht'"
      using pos len nr sz bd lb by (simp add: table_inv_def f)
    have st: "stored ht' = (stored ht)(k := None)"
      unfolding stored_def f using d bd(2) bd(3) by (rule map_of_kv_delete)
    from True D I inv st f show ?thesis by simp
  qed
qed


lemma Put_ok:
  assumes "table_inv fmtv ht"
  shows "\<exists>ht' evs. Put fmtv ht k v = Some (Inr ht') \<and> table_inv fmtv ht' \<and>
           stored ht' = (stored ht)(k \<mapsto> v) \<and>
           size_ht ht' = size_ht ht + (if k \<in> present_keys ht then 0 else 1) \<and>
           events ht' = events ht @
             [RLock TableMu, RUnlock TableMu,
              Lock (BucketMu (length (buckets ht)) (slot fmtv (length (buckets ht)) k)),
              Unlock (BucketMu (length (buckets ht)) (slot fmtv (length (buckets ht)) k))] @ evs \<and>
           (evs \<noteq> [] \<longleftrightarrow> k \<notin> present_keys ht \<and> loadExceeds (size_ht ht + 1) (bucketSize ht)) \<and>
           bucketSize ht' = (if evs \<noteq> [] then 2 * bucketSize ht else bucketSize ht) \<and>
           (k \<in> present_keys ht \<longrightarrow>
              map (\<lambda>b. map key (entries b)) (buckets ht') = map (\<lambda>b. map key (entries b)) (buckets ht))"
proof -
  let ?bs = "buckets ht"
  let ?n = "length ?bs"
  let ?j = "slot fmtv ?n k"
  let ?m = "BucketMu ?n ?j"
  let ?h = "emit [RLock TableMu, RUnlock TableMu] ht"
  let ?es = "entries (?bs ! ?j)"
  let ?pre = "[RLock TableMu, RUnlock TableMu, Lock ?m, Unlock ?m]"
  from assms have pos: "0 < bucketSize ht" and len: "int ?n = bucketSize ht"
    and pl: "placed fmtv ?bs" and d: "distinct (map key (all_entries ?bs))"
    and sz: "size_ht ht = int (length (all_entries ?bs))" and nr: "\<not> resizing ht"
    by (simp_all add: table_inv_def)
  from pos len have n: "0 < ?n" by linarith
  have j: "?j < ?n" using n by (rule slot_less)
  have h: "hash fmtv ht k = Inr (int ?j, ?h)" using pos len by (rule hash_inv)
  have bh: "buckets ?h = ?bs" by (simp add: emit_def)
  have P: "Put fmtv ht k v = Some (Put_iter fmtv ?h ?j k v)"
    using j by (subst Put.simps) (simp add: h bh)
  have pres: "k \<in> present_keys ht \<longleftrightarrow> snd (Put_scan ?es k v)"
    using key_in_bucket [OF pl n, of k] by (simp add: present_keys_def Put_scan_snd)
  show ?thesis
  proof (cases "k \<in> present_keys ht")
    case True
    define bs' where "bs' = ?bs[?j := (?bs ! ?j)\<lparr>entries := fst (Put_scan ?es k v)\<rparr>]"
    define ht' where "ht' = emit [Unlock ?m] ((emit [Lock ?m] ?h)\<lparr>buckets := bs'\<rparr>)"
    from True have kin: "k \<in> key ` set (all_entries ?bs)" by (simp add: present_keys_def)
    note bu = bucket_update [OF pl n d refl kin bs'_def]
    have sn: "snd (Put_scan ?es k v)" using True pres by simp
    have I: "Put_iter fmtv ?h ?j k v = Inr ht'"
      using sn by (simp add: Put_iter_def Let_def bh split_beta ht'_def bs'_def emit_def)
    have f: "buckets ht' = bs'" "size_ht ht' = size_ht ht" "bucketSize ht' = bucketSize ht"
      "resizing ht' = resizing ht" "events ht' = events ht @ ?pre @ []"
      by (simp_all add: ht'_def emit_def)
    have lb: "length bs' = ?n" by (simp add: bs'_def)
    have inv: "table_inv fmtv ht'"
      using pos len nr sz bu lb by (simp add: table_inv_def f)
    have st: "stored ht' = (stored ht)(k \<mapsto> v)"
      unfolding stored_def f using d bu(2) bu(3) by (rule map_of_kv_put)
    from True P I inv st f(2,3,5) bu(5) show ?thesis
      by (intro exI [of _ ht'] exI [of _ "[]"]) (simp add: f(1))
  next
    case False
    define bs' where "bs' = ?bs[?j := (?bs ! ?j)\<lparr>entries := ?es @ [\<lparr>key = k, val = v\<rparr>]\<rparr>]"
    define ht4 where "ht4 = (emit [Unlock ?m] ((emit [Lock ?m] ?h)\<lparr>buckets := bs'\<rparr>))\<lparr>size_ht := size_ht ht + 1\<rparr>"
    from False have kout: "k \<notin> key ` set (all_entries ?bs)" by (simp add: present_keys_def)
    note bi = bucket_insert [OF pl n d refl kout bs'_def]
    have sn: "\<not> snd (Put_scan ?es k v)" using False pres by simp
    have I: "Put_iter fmtv ?h ?j k v =
             (if loadExceeds (size_ht ht + 1) (bucketSize ht) then tryResize fmtv ht4 else Inr ht4)"
      using sn by (simp add: Put_iter_def Let_def bh split_beta ht4_def bs'_def emit_def)
    have f: "buckets ht4 = bs'" "size_ht ht4 = size_ht ht + 1" "bucketSize ht4 = bucketSize ht"
      "resizing ht4 = resizing ht" "events ht4 = events ht @ ?pre"
      by (simp_all add: ht4_def emit_def)
    have lb: "length bs' = ?n" by (simp add: bs'_def)
    have inv: "table_inv fmtv ht4"
      using pos len nr sz bi lb by (simp add: table_inv_def f)
    have st: "stored ht4 = (stored ht)(k \<mapsto> v)"
      unfolding stored_def f using d bi(2) bi(3) by (rule map_of_kv_put)
    show ?thesis
    proof (cases "loadExceeds (size_ht ht + 1) (bucketSize ht)")
      case le: False
      with False P I inv st f show ?thesis
        by (intro exI [of _ ht4] exI [of _ "[]"]) simp
    next
      case le: True
      from tryResize_ok [OF inv]
      obtain ht' evs where r: "tryResize fmtv ht4 = Inr ht'" and inv': "table_inv fmtv ht'"
        and st': "stored ht' = stored ht4" and sz': "size_ht ht' = size_ht ht4"
        and ev': "events ht' = events ht4 @ Lock TableMu # evs"
        and bs: "bucketSize ht' = (if loadExceeds (size_ht ht4) (bucketSize ht4)
                                   then 2 * bucketSize ht4 else bucketSize ht4)"
        by blast
      from le False P I r inv' st' st sz' ev' bs f show ?thesis
        by (intro exI [of _ ht'] exI [of _ "Lock TableMu # evs"]) simp
    qed
  qed
qed

lemma resize_times_ok:
  assumes "table_inv fmtv ht"
  shows "\<exists>ht'. resize_times fmtv n ht = Inr ht' \<and> table_inv fmtv ht' \<and> stored ht' = stored ht \<and>
           size_ht ht' = size_ht ht"
  using assms
proof (induction n arbitrary: ht)
  case 0
  then show ?case by simp
next
  case (Suc n)
  from tryResize_ok [OF Suc.prems]
  obtain h where h: "tryResize fmtv ht = Inr h" "table_inv fmtv h" "stored h = stored ht"
    "size_ht h = size_ht ht"
    by blast
  from Suc.IH [OF h(2)]
  obtain h' where h': "resize_times fmtv n h = Inr h'" "table_inv fmtv h'" "stored h' = stored h"
    "size_ht h' = size_ht h"
    by blast
  from h h' show ?case by simp
qed

lemma stored_in_slot:
  assumes "table_inv fmtv ht" and "stored ht k = Some v"
  shows "slot fmtv (length (buckets ht)) k < length (buckets ht) \<and>
         \<lparr>key = k, val = v\<rparr> \<in> set (entries (buckets ht ! slot fmtv (length (buckets ht)) k))"
proof -
  let ?bs = "buckets ht"
  let ?j = "slot fmtv (length ?bs) k"
  from assms(1) have pos: "0 < bucketSize ht" and len: "int (length ?bs) = bucketSize ht"
    and pl: "placed fmtv ?bs" and d: "distinct (map key (all_entries ?bs))"
    by (simp_all add: table_inv_def)
  from pos len have n: "0 < length ?bs" by linarith
  have j: "?j < length ?bs" using n by (rule slot_less)
  have db: "distinct (map key (entries (?bs ! ?j)))" using d j by (rule distinct_bucket)
  from assms(2) have "map_of (map kv (entries (?bs ! ?j))) k = Some v"
    by (simp add: stored_def stored_bucket [OF pl n d])
  then obtain e where e: "e \<in> set (entries (?bs ! ?j))" "key e = k" "val e = v"
    unfolding map_of_kv_Some_iff [OF db] by blast
  from e(2,3) have "e = \<lparr>key = k, val = v\<rparr>" by (cases e) simp
  with e(1) j show ?thesis by simp
qed

section \<open>The claims\<close>

text \<open>
  C9. For every table between calls and every key not present in it, \<open>Get\<close> returns the
  zero value of the value type with \<open>found = false\<close>, and leaves the size counter and
  the entries of every bucket as they were.
\<close>

theorem C9_Get_absent:
  assumes "table_inv fmtv ht" and "k \<notin> present_keys ht"
  shows "\<exists>ht'. Get fmtv zeroV ht k = Some (Inr ((zeroV, False), ht')) \<and>
           size_ht ht' = size_ht ht \<and> buckets ht' = buckets ht"
proof -
  from assms(2) have "stored ht k = None" by (auto simp: present_keys_stored)
  then show ?thesis by (simp add: Get_ok [OF assms(1)] emit_def)
qed

theorem C9_Get_absent_witness:
  "table_inv id table_a \<and> ''b'' \<notin> present_keys table_a \<and>
   (\<exists>ht'. Get id (0::int) table_a ''b'' = Some (Inr ((0, False), ht')) \<and>
      size_ht ht' = 1 \<and> buckets ht' = buckets table_a)"
proof -
  have i: "table_inv id table_a" by code_simp
  have a: "''b'' \<notin> present_keys table_a" by code_simp
  have s: "size_ht table_a = 1" by (simp add: table_a_def)
  from C9_Get_absent [OF i a, of 0] i a s show ?thesis by simp
qed

text \<open>
  C8. In every table between calls, \<open>hash\<close> gives every key an index from \<open>0\<close> up to,
  but not including, the bucket count, which is the length of the bucket array; and the
  index is the same in any other table of the same bucket count.
\<close>

theorem C8_hash_in_range:
  assumes "table_inv fmtv ht" and "bucketSize ht2 = bucketSize ht"
  shows "\<exists>i ht1 ht3. hash fmtv ht k = Inr (i, ht1) \<and> hash fmtv ht2 k = Inr (i, ht3) \<and>
           0 \<le> i \<and> i < bucketSize ht \<and> nat i < length (buckets ht)"
proof -
  from assms(1) have pos: "0 < bucketSize ht" and len: "int (length (buckets ht)) = bucketSize ht"
    by (simp_all add: table_inv_def)
  from pos len have n: "0 < length (buckets ht)" by linarith
  let ?i = "uint (Sum32 (fmtv k)) mod bucketSize ht"
  have i: "fnv_index (fmtv k) (bucketSize ht) = Inr ?i" using pos by (rule fnv_index_pos)
  have "hash fmtv ht k = Inr (?i, emit [RLock TableMu, RUnlock TableMu] ht)"
    by (simp add: hash_def Let_def emit_def i)
  moreover have "hash fmtv ht2 k = Inr (?i, emit [RLock TableMu, RUnlock TableMu] ht2)"
    by (simp add: hash_def Let_def emit_def i assms(2))
  moreover have "0 \<le> ?i" "?i < bucketSize ht" using pos by simp_all
  moreover from this len have "nat ?i < length (buckets ht)" by linarith
  ultimately show ?thesis by blast
qed

theorem C8_hash_in_range_witness:
  "table_inv id table_a \<and> bucketSize (New 4 :: (string, int) HashTable) = bucketSize table_a \<and>
   (\<exists>ht1 ht3. hash id table_a ''b'' = Inr (1, ht1) \<and>
      hash id (New 4 :: (string, int) HashTable) ''b'' = Inr (1, ht3))"
proof -
  have i: "table_inv id table_a" by code_simp
  have b: "bucketSize (New 4 :: (string, int) HashTable) = bucketSize table_a" by code_simp
  have s: "uint (Sum32 ''b'') mod 4 = 1" by code_simp
  have bs: "bucketSize table_a = 4" by (simp add: table_a_def)
  from C8_hash_in_range [OF i b, of "''b''"]
  obtain j ht1 ht3 where h: "hash id table_a ''b'' = Inr (j, ht1)"
    "hash id (New 4 :: (string, int) HashTable) ''b'' = Inr (j, ht3)" by blast
  have "hash id table_a ''b'' = Inr (1, emit [RLock TableMu, RUnlock TableMu] table_a)"
    by (simp add: hash_def Let_def emit_def bs fnv_index_pos s)
  with h have "j = 1" by simp
  with h i b show ?thesis by blast
qed

text \<open>
  C7. \<open>New\<close> takes a requested size below \<open>1\<close> as \<open>16\<close> and any other size as it is. In
  every table between calls the bucket count is at least \<open>1\<close> and is the length of the
  bucket array; \<open>Get\<close> and \<open>Delete\<close> leave it as it is, and \<open>tryResize\<close>, alone or
  called from \<open>Put\<close>, leaves it as it is or doubles it.
\<close>

theorem C7_bucket_count:
  assumes "table_inv fmtv ht"
  shows "bucketSize (New n :: ('k, 'v) HashTable) = (if n < 1 then 16 else n) \<and>
         table_inv fmtv (New n :: ('k, 'v) HashTable) \<and>
         1 \<le> bucketSize ht \<and> int (length (buckets ht)) = bucketSize ht \<and>
         (\<exists>ht'. tryResize fmtv ht = Inr ht' \<and> table_inv fmtv ht' \<and>
            (bucketSize ht' = bucketSize ht \<or> bucketSize ht' = 2 * bucketSize ht)) \<and>
         (\<exists>ht'. Put fmtv ht k v = Some (Inr ht') \<and> table_inv fmtv ht' \<and>
            (bucketSize ht' = bucketSize ht \<or> bucketSize ht' = 2 * bucketSize ht)) \<and>
         (\<exists>r ht'. Get fmtv zeroV ht k = Some (Inr (r, ht')) \<and> table_inv fmtv ht' \<and>
            bucketSize ht' = bucketSize ht) \<and>
         (\<exists>d ht'. Delete fmtv ht k = Some (Inr (d, ht')) \<and> table_inv fmtv ht' \<and>
            bucketSize ht' = bucketSize ht)"
proof -
  have "bucketSize (New n :: ('k, 'v) HashTable) = (if n < 1 then 16 else n)"
    by (simp add: New_def Let_def)
  moreover have "table_inv fmtv (New n :: ('k, 'v) HashTable)" by (rule table_inv_New)
  moreover from assms have "1 \<le> bucketSize ht" "int (length (buckets ht)) = bucketSize ht"
    by (simp_all add: table_inv_def)
  moreover from tryResize_ok [OF assms]
  have "\<exists>ht'. tryResize fmtv ht = Inr ht' \<and> table_inv fmtv ht' \<and>
            (bucketSize ht' = bucketSize ht \<or> bucketSize ht' = 2 * bucketSize ht)"
    by (metis (full_types))
  moreover from Put_ok [OF assms, of k v]
  have "\<exists>ht'. Put fmtv ht k v = Some (Inr ht') \<and> table_inv fmtv ht' \<and>
            (bucketSize ht' = bucketSize ht \<or> bucketSize ht' = 2 * bucketSize ht)"
    by (metis (full_types))
  moreover have "\<exists>r ht'. Get fmtv zeroV ht k = Some (Inr (r, ht')) \<and> table_inv fmtv ht' \<and>
            bucketSize ht' = bucketSize ht"
    using assms by (simp add: Get_ok [OF assms] table_inv_def emit_def)
  moreover from Delete_ok [OF assms, of k]
  have "\<exists>d ht'. Delete fmtv ht k = Some (Inr (d, ht')) \<and> table_inv fmtv ht' \<and>
            bucketSize ht' = bucketSize ht"
    by blast
  ultimately show ?thesis by blast
qed

theorem C7_bucket_count_witness:
  "table_inv id one_bucket_table \<and> bucketSize one_bucket_table = 1 \<and>
   bucketSize (New 0 :: (string, int) HashTable) = 16 \<and>
   bucketSize (New 4 :: (string, int) HashTable) = 4 \<and>
   (\<exists>ht'. tryResize id one_bucket_table = Inr ht' \<and> table_inv id ht' \<and> bucketSize ht' = 2)"
proof -
  have i: "table_inv id one_bucket_table" by code_simp
  have b: "bucketSize one_bucket_table = 1" by (simp add: one_bucket_table_def)
  have l: "loadExceeds (size_ht one_bucket_table) (bucketSize one_bucket_table)" by code_simp
  from tryResize_ok [OF i]
  obtain h where h: "tryResize id one_bucket_table = Inr h" "bucketSize h = 2"
    using l b by auto
  from C7_bucket_count [OF i, of 0 "''a''" 0 0] C7_bucket_count [OF i, of 4 "''a''" 0 0] h i b
  show ?thesis by auto
qed

text \<open>
  C6. In every table between calls, \<open>Delete\<close> returns whether the key was present. For
  an absent key it leaves the counter and the buckets as they were; for a present key it
  removes the entry and takes one from the counter. A second \<open>Delete\<close> of the same key
  returns \<open>false\<close> and changes neither.
\<close>

theorem C6_Delete:
  assumes "table_inv fmtv ht"
  shows "\<exists>ht' ht''. Delete fmtv ht k = Some (Inr (k \<in> present_keys ht, ht')) \<and>
           Delete fmtv ht' k = Some (Inr (False, ht'')) \<and>
           present_keys ht' = present_keys ht - {k} \<and>
           stored ht' = (stored ht)(k := None) \<and>
           Size ht' = Size ht - (if k \<in> present_keys ht then 1 else 0) \<and>
           (k \<notin> present_keys ht \<longrightarrow> buckets ht' = buckets ht) \<and>
           buckets ht'' = buckets ht' \<and> Size ht'' = Size ht'"
proof -
  from Delete_ok [OF assms, of k]
  obtain ht' where d1: "Delete fmtv ht k = Some (Inr (k \<in> present_keys ht, ht'))"
    and inv: "table_inv fmtv ht'" and st: "stored ht' = (stored ht)(k := None)"
    and sz: "size_ht ht' = size_ht ht - (if k \<in> present_keys ht then 1 else 0)"
    and bs: "k \<notin> present_keys ht \<longrightarrow> buckets ht' = buckets ht"
    by blast
  have pk: "present_keys ht' = present_keys ht - {k}"
    by (simp add: present_keys_stored st)
  then have out: "k \<notin> present_keys ht'" by simp
  from Delete_ok [OF inv, of k] out
  obtain ht'' where d2: "Delete fmtv ht' k = Some (Inr (False, ht''))"
    and sz2: "size_ht ht'' = size_ht ht'" and bs2: "buckets ht'' = buckets ht'"
    by auto
  from d1 d2 pk st sz bs sz2 bs2 show ?thesis by (auto simp: Size_def)
qed



theorem C6_Delete_witness:
  "table_inv id table_a \<and>
   (\<exists>ht' ht''. Delete id table_a ''a'' = Some (Inr (True, ht')) \<and>
      Delete id ht' ''a'' = Some (Inr (False, ht'')) \<and> Size ht' = 0 \<and> Size ht'' = 0 \<and>
      present_keys ht' = {}) \<and>
   (\<exists>ht'. Delete id table_a ''b'' = Some (Inr (False, ht')) \<and> Size ht' = 1 \<and>
      buckets ht' = buckets table_a)"
proof -
  have i: "table_inv id table_a" by code_simp
  have a: "present_keys table_a = {''a''}"
    by (simp add: present_keys_def table_a_def all_entries_def)
  have s: "Size table_a = 1" by (simp add: Size_def table_a_def)
  from C6_Delete [OF i, of "''a''"]
  obtain h1 h2 where A: "Delete id table_a ''a'' = Some (Inr (''a'' \<in> present_keys table_a, h1))"
    "Delete id h1 ''a'' = Some (Inr (False, h2))" "present_keys h1 = present_keys table_a - {''a''}"
    "Size h1 = Size table_a - (if ''a'' \<in> present_keys table_a then 1 else 0)" "Size h2 = Size h1"
    by blast
  from C6_Delete [OF i, of "''b''"]
  obtain g1 where B: "Delete id table_a ''b'' = Some (Inr (''b'' \<in> present_keys table_a, g1))"
    "Size g1 = Size table_a - (if ''b'' \<in> present_keys table_a then 1 else 0)"
    "''b'' \<notin> present_keys table_a \<longrightarrow> buckets g1 = buckets table_a"
    by blast
  have 1: "\<exists>ht' ht''. Delete id table_a ''a'' = Some (Inr (True, ht')) \<and>
      Delete id ht' ''a'' = Some (Inr (False, ht'')) \<and> Size ht' = 0 \<and> Size ht'' = 0 \<and>
      present_keys ht' = {}"
    using A by (intro exI [of _ h1] exI [of _ h2]) (simp add: a s)
  have 2: "\<exists>ht'. Delete id table_a ''b'' = Some (Inr (False, ht')) \<and> Size ht' = 1 \<and>
      buckets ht' = buckets table_a"
    using B by (intro exI [of _ g1]) (simp add: a s)
  from i 1 2 show ?thesis by (intro conjI)
qed

text \<open>
  C5. In every table between calls, \<open>Put\<close> of a key that is present stores the new
  value under it, leaves the counter, the bucket count and the keys of every bucket, in
  their order, as they were, and ends with the release of the bucket's lock: it does not
  go on to \<open>tryResize\<close>, whatever the load. \<open>Get\<close> then returns the new value.
\<close>

theorem C5_Put_existing:
  assumes "table_inv fmtv ht" and "k \<in> present_keys ht"
  shows "\<exists>ht' ht''. Put fmtv ht k v = Some (Inr ht') \<and>
           Size ht' = Size ht \<and> bucketSize ht' = bucketSize ht \<and>
           map (\<lambda>b. map key (entries b)) (buckets ht') = map (\<lambda>b. map key (entries b)) (buckets ht) \<and>
           stored ht' = (stored ht)(k \<mapsto> v) \<and>
           events ht' = events ht @
             [RLock TableMu, RUnlock TableMu,
              Lock (BucketMu (length (buckets ht)) (slot fmtv (length (buckets ht)) k)),
              Unlock (BucketMu (length (buckets ht)) (slot fmtv (length (buckets ht)) k))] \<and>
           Get fmtv zeroV ht' k = Some (Inr ((v, True), ht''))"
proof -
  from Put_ok [OF assms(1), of k v] assms(2)
  obtain ht' where p: "Put fmtv ht k v = Some (Inr ht')" and inv: "table_inv fmtv ht'"
    and st: "stored ht' = (stored ht)(k \<mapsto> v)" and sz: "size_ht ht' = size_ht ht"
    and ev: "events ht' = events ht @
             [RLock TableMu, RUnlock TableMu,
              Lock (BucketMu (length (buckets ht)) (slot fmtv (length (buckets ht)) k)),
              Unlock (BucketMu (length (buckets ht)) (slot fmtv (length (buckets ht)) k))]"
    and bs: "bucketSize ht' = bucketSize ht"
    and ks: "map (\<lambda>b. map key (entries b)) (buckets ht') = map (\<lambda>b. map key (entries b)) (buckets ht)"
    by auto
  have "\<exists>ht''. Get fmtv zeroV ht' k = Some (Inr ((v, True), ht''))"
    by (simp add: Get_ok [OF inv] st)
  with p st sz ev bs ks show ?thesis by (auto simp: Size_def)
qed



theorem C5_Put_existing_witness:
  "\<exists>s1 s2 s3. Put id (New 16 :: (string, int) HashTable) ''a'' 1 = Some (Inr s1) \<and>
     table_inv id s1 \<and> ''a'' \<in> present_keys s1 \<and>
     Put id s1 ''a'' 2 = Some (Inr s2) \<and>
     Get id 0 s2 ''a'' = Some (Inr ((2, True), s3)) \<and> Size s2 = 1"
proof -
  have i: "table_inv id (New 16 :: (string, int) HashTable)" by (rule table_inv_New)
  have e: "''a'' \<notin> present_keys (New 16 :: (string, int) HashTable)" by code_simp
  have z: "size_ht (New 16 :: (string, int) HashTable) = 0" by code_simp
  from Put_ok [OF i, of "''a''" 1] e z
  obtain s1 where s1: "Put id (New 16 :: (string, int) HashTable) ''a'' 1 = Some (Inr s1)"
    "table_inv id s1" "stored s1 = (stored (New 16 :: (string, int) HashTable))(''a'' \<mapsto> 1)"
    "size_ht s1 = 1"
    by auto
  from s1(3) have pres: "''a'' \<in> present_keys s1" by (simp add: present_keys_stored)
  from C5_Put_existing [OF s1(2) pres, of 2 0] s1 pres show ?thesis
    by (auto simp: Size_def)
qed

text \<open>
  C2. In every table between calls, any number of calls of \<open>tryResize\<close> in a row leave
  the stored map and the counter as they were: a key stored with a value (its last \<open>Put\<close>,
  not deleted since) is found by \<open>Get\<close> afterwards, with that value and \<open>found = true\<close>.
\<close>

theorem C2_resize_keeps_map:
  assumes "table_inv fmtv ht" and "stored ht k = Some v"
  shows "\<exists>ht' ht''. resize_times fmtv n ht = Inr ht' \<and> table_inv fmtv ht' \<and>
           stored ht' = stored ht \<and> Size ht' = Size ht \<and>
           Get fmtv zeroV ht' k = Some (Inr ((v, True), ht''))"
proof -
  from resize_times_ok [OF assms(1), of n]
  obtain h where h: "resize_times fmtv n ht = Inr h" "table_inv fmtv h" "stored h = stored ht"
    "size_ht h = size_ht ht"
    by blast
  have "\<exists>ht''. Get fmtv zeroV h k = Some (Inr ((v, True), ht''))"
    by (simp add: Get_ok [OF h(2)] h(3) assms(2))
  with h show ?thesis by (auto simp: Size_def)
qed

theorem C2_resize_keeps_map_witness:
  "table_inv id one_bucket_table \<and> stored one_bucket_table ''a'' = Some 1 \<and>
   (\<exists>ht' ht''. resize_times id 3 one_bucket_table = Inr ht' \<and> bucketSize ht' = 2 \<and>
      Get id 0 ht' ''a'' = Some (Inr ((1, True), ht'')))"
proof -
  have i: "table_inv id one_bucket_table" by code_simp
  have s: "stored one_bucket_table ''a'' = Some 1" by code_simp
  have b: "map_sum id bucketSize (resize_times id 3 one_bucket_table) = Inr 2" by code_simp
  from C2_resize_keeps_map [OF i s, of 3 0]
  obtain h h' where h: "resize_times id 3 one_bucket_table = Inr h"
    "Get id 0 h ''a'' = Some (Inr ((1, True), h'))"
    by blast
  from b h(1) have "bucketSize h = 2" by simp
  with h i s show ?thesis by blast
qed

text \<open>
  C10. Two different keys that print as the same string hash to the same bucket and are
  kept as two entries there: from any table between calls, after \<open>Put\<close> of the first and
  \<open>Put\<close> of the second, \<open>Get\<close> finds each with its own value, both entries lie in one
  bucket, and the counter has grown by one for each of the two that was not present
  before. What decides between update and insert is the equality of keys.
\<close>

theorem C10_same_string_keys:
  assumes "table_inv fmtv ht" and "k1 \<noteq> k2" and "fmtv k1 = fmtv k2"
  shows "\<exists>h1 h2 g1 g2 j. Put fmtv ht k1 v1 = Some (Inr h1) \<and> Put fmtv h1 k2 v2 = Some (Inr h2) \<and>
           Get fmtv zeroV h2 k1 = Some (Inr ((v1, True), g1)) \<and>
           Get fmtv zeroV h2 k2 = Some (Inr ((v2, True), g2)) \<and>
           j < length (buckets h2) \<and>
           \<lparr>key = k1, val = v1\<rparr> \<in> set (entries (buckets h2 ! j)) \<and>
           \<lparr>key = k2, val = v2\<rparr> \<in> set (entries (buckets h2 ! j)) \<and>
           Size h2 = Size ht + (if k1 \<in> present_keys ht then 0 else 1)
                             + (if k2 \<in> present_keys ht then 0 else 1)"
proof -
  from Put_ok [OF assms(1), of k1 v1]
  obtain h1 where h1: "Put fmtv ht k1 v1 = Some (Inr h1)" "table_inv fmtv h1"
    "stored h1 = (stored ht)(k1 \<mapsto> v1)"
    "size_ht h1 = size_ht ht + (if k1 \<in> present_keys ht then 0 else 1)"
    by blast
  from Put_ok [OF h1(2), of k2 v2]
  obtain h2 where h2: "Put fmtv h1 k2 v2 = Some (Inr h2)" "table_inv fmtv h2"
    "stored h2 = (stored h1)(k2 \<mapsto> v2)"
    "size_ht h2 = size_ht h1 + (if k2 \<in> present_keys h1 then 0 else 1)"
    by blast
  have s1: "stored h2 k1 = Some v1" using assms(2) by (simp add: h2(3) h1(3))
  have s2: "stored h2 k2 = Some v2" by (simp add: h2(3))
  have "k2 \<in> present_keys h1 \<longleftrightarrow> k2 \<in> present_keys ht"
    using assms(2) by (simp add: present_keys_stored h1(3))
  with h1(4) h2(4) have sz: "Size h2 = Size ht + (if k1 \<in> present_keys ht then 0 else 1)
                             + (if k2 \<in> present_keys ht then 0 else 1)"
    by (simp add: Size_def)
  have g1: "\<exists>g1. Get fmtv zeroV h2 k1 = Some (Inr ((v1, True), g1))"
    by (simp add: Get_ok [OF h2(2)] s1)
  have g2: "\<exists>g2. Get fmtv zeroV h2 k2 = Some (Inr ((v2, True), g2))"
    by (simp add: Get_ok [OF h2(2)] s2)
  have eq: "slot fmtv (length (buckets h2)) k1 = slot fmtv (length (buckets h2)) k2"
    by (simp add: slot_def assms(3))
  from stored_in_slot [OF h2(2) s1] stored_in_slot [OF h2(2) s2] eq
  have "\<exists>j. j < length (buckets h2) \<and>
           \<lparr>key = k1, val = v1\<rparr> \<in> set (entries (buckets h2 ! j)) \<and>
           \<lparr>key = k2, val = v2\<rparr> \<in> set (entries (buckets h2 ! j))"
    by auto
  with h1(1) h2(1) g1 g2 sz show ?thesis by blast
qed

theorem C10_same_string_keys_witness:
  "table_inv fmt_any (New 16 :: (int + string, string) HashTable) \<and>
   (Inl 1 :: int + string) \<noteq> Inr ''1'' \<and> fmt_any (Inl 1) = fmt_any (Inr ''1'') \<and>
   (\<exists>h1 h2 g1 g2. Put fmt_any (New 16) (Inl 1) ''one'' = Some (Inr h1) \<and>
      Put fmt_any h1 (Inr ''1'') ''uno'' = Some (Inr h2) \<and>
      Get fmt_any [] h2 (Inl 1) = Some (Inr ((''one'', True), g1)) \<and>
      Get fmt_any [] h2 (Inr ''1'') = Some (Inr ((''uno'', True), g2)) \<and> Size h2 = 2)"
proof -
  have i: "table_inv fmt_any (New 16 :: (int + string, string) HashTable)" by (rule table_inv_New)
  have n: "(Inl 1 :: int + string) \<noteq> Inr ''1''" by simp
  have f: "fmt_any (Inl 1) = fmt_any (Inr ''1'')" by code_simp
  have e: "present_keys (New 16 :: (int + string, string) HashTable) = {}"
    by (simp add: present_keys_def New_def all_entries_replicate)
  have z: "Size (New 16 :: (int + string, string) HashTable) = 0"
    by (simp add: Size_def New_def)
  from C10_same_string_keys [OF i n f, of "''one''" "''uno''" "[]"] e z
  have "\<exists>h1 h2 g1 g2. Put fmt_any (New 16) (Inl 1) ''one'' = Some (Inr h1) \<and>
      Put fmt_any h1 (Inr ''1'') ''uno'' = Some (Inr h2) \<and>
      Get fmt_any [] h2 (Inl 1) = Some (Inr ((''one'', True), g1)) \<and>
      Get fmt_any [] h2 (Inr ''1'') = Some (Inr ((''uno'', True), g2)) \<and> Size h2 = 2"
    by (elim exE conjE) (intro exI conjI, assumption+, simp)
  with i n f show ?thesis by (intro conjI)
qed

end
